theory Spec2Isabelle
  imports Complex_Main "HOL-Library.AList" "HOL-Library.Multiset"
begin

section \<open>PageRank: the transition model, the sampler and the iterative solver\<close>

text \<open>
  A shallow embedding of \<^verbatim>\<open>pagerank.py\<close>.

  \<^item> A Python \<^verbatim>\<open>dict\<close> is an association list with distinct keys, in insertion order
    (the order in which \<^verbatim>\<open>for key in d\<close> yields the keys). Writing to an existing key
    keeps its position, writing to a new key appends: this is \<open>AList.update\<close>. Reading
    a key is \<open>map_of\<close>, and a missing key is the error \<open>KeyError\<close>.
  \<^item> A Python \<^verbatim>\<open>set\<close> is the list of its (distinct) elements in insertion order. The order
    in which \<^verbatim>\<open>for x in s\<close> yields them is not the insertion order: it is \<open>iter s\<close>, where
    \<open>iter\<close> is a parameter of every function that loops over a set. All that is known of
    it is \<open>set_order iter\<close>: it yields every element once.
  \<^item> Python floats are modelled in exact arithmetic, as \<open>real\<close>; the literals \<^verbatim>\<open>0.85\<close> and
    \<^verbatim>\<open>0.0001\<close> are the rationals they denote.
  \<^item> An exception is a value \<open>Inl e\<close> of a sum type.
\<close>

datatype error = KeyError | IndexError | ZeroDivisionError

type_synonym 'a pyset = "'a list"
type_synonym 'a corpus = "('a \<times> 'a pyset) list"
type_synonym 'a ranks = "('a \<times> real) list"

definition set_order :: "('a pyset \<Rightarrow> 'a list) \<Rightarrow> bool" where
  "set_order iter = (\<forall>xs. mset (iter xs) = mset xs)"

text \<open>The graph of the specification: a dict whose values are sets of its own keys.\<close>

definition graph :: "'a corpus \<Rightarrow> bool" where
  "graph corpus =
     (distinct (map fst corpus) \<and>
      list_all (\<lambda>(page, links). distinct links \<and> list_all (\<lambda>l. l \<in> fst ` set corpus) links) corpus)"

subsection \<open>transition_model\<close>

text \<open>
  The loop \<^verbatim>\<open>for link in corpus[page]: model[link] += x\<close>, over the links in iteration
  order: \<^verbatim>\<open>model[link]\<close> is read first, and raises KeyError for a link that is no page.
\<close>

fun add_links :: "'a list \<Rightarrow> real \<Rightarrow> 'a ranks \<Rightarrow> error + 'a ranks" where
  "add_links [] x model = Inr model"
| "add_links (link # links) x model =
     (case map_of model link of
        None \<Rightarrow> Inl KeyError
      | Some v \<Rightarrow> add_links links x (AList.update link (v + x) model))"

text \<open>
  The loops \<^verbatim>\<open>for key in corpus: model[key] = c\<close> fill the empty dict \<open>model\<close> with the
  keys of \<open>corpus\<close> in order. No division by zero can happen: \<^verbatim>\<open>corpus[page]\<close> has been
  read before, so the corpus has a key.
\<close>

definition transition_model ::
  "('a pyset \<Rightarrow> 'a list) \<Rightarrow> 'a corpus \<Rightarrow> 'a \<Rightarrow> real \<Rightarrow> error + 'a ranks" where
  "transition_model iter corpus page damping_factor =
     (case map_of corpus page of
        None \<Rightarrow> Inl KeyError
      | Some links \<Rightarrow>
          if length links \<noteq> 0 then
            add_links (iter links) (damping_factor / real (length links))
              (fold (\<lambda>key model. AList.update key ((1 - damping_factor) / real (length corpus)) model)
                 (map fst corpus) [])
          else
            Inr (fold (\<lambda>key model. AList.update key (1 / real (length corpus)) model)
                   (map fst corpus) []))"

text \<open>The distribution of the specification, for a page with the outlinks \<open>links\<close>.\<close>

definition reference_probability :: "'a corpus \<Rightarrow> 'a list \<Rightarrow> real \<Rightarrow> 'a \<Rightarrow> real" where
  "reference_probability corpus links damping key =
     (if links = [] then 1 / real (length corpus)
      else (1 - damping) / real (length corpus)
           + (if key \<in> set links then damping / real (length links) else 0))"

subsection \<open>sample_pagerank\<close>





subsection \<open>iterate_pagerank\<close>

text \<open>\<^verbatim>\<open>s.update(t)\<close> and \<^verbatim>\<open>s.add(x)\<close>: the elements that are new are inserted.\<close>

definition set_update :: "'a pyset \<Rightarrow> 'a list \<Rightarrow> 'a pyset" where
  "set_update s t = fold (\<lambda>x s. if x \<in> set s then s else s @ [x]) t s"

definition set_add :: "'a \<Rightarrow> 'a pyset \<Rightarrow> 'a pyset" where
  "set_add x s = (if x \<in> set s then s else s @ [x])"

text \<open>
  Lines 118 to 120. The loop writes to the set objects of the caller's dict: every empty
  set gets the elements of \<^verbatim>\<open>set(corpus.keys())\<close>, in that set's iteration order. The
  keys do not change, and a page's entry depends on no other entry.
\<close>

definition rewrite_sinks :: "('a pyset \<Rightarrow> 'a list) \<Rightarrow> 'a corpus \<Rightarrow> 'a corpus" where
  "rewrite_sinks iter corpus =
     map (\<lambda>(page, links).
            (page, if links = [] then set_update links (iter (map fst corpus)) else links))
       corpus"

text \<open>
  Lines 125 to 129, for one page. The number \<open>fresh\<close> is not in the source: it counts how
  often the \<^verbatim>\<open>else\<close> branch of line 128 runs, the one that gives the reverse index a key
  it does not have.
\<close>

fun index_links ::
  "'a \<Rightarrow> 'a list \<Rightarrow> ('a \<times> 'a pyset) list \<times> nat \<Rightarrow> ('a \<times> 'a pyset) list \<times> nat" where
  "index_links page [] st = st"
| "index_links page (link # links) (links_to, fresh) =
     (case map_of links_to link of
        Some s \<Rightarrow> index_links page links (AList.update link (set_add page s) links_to, fresh)
      | None \<Rightarrow> index_links page links (AList.update link [page] links_to, fresh + 1))"

text \<open>
  Lines 122 to 129, over the entries of the corpus (rewritten before, and not written to
  here). The body runs for a page of the corpus, so \<open>len(corpus)\<close> is not zero.
\<close>

fun index_pages ::
  "('a pyset \<Rightarrow> 'a list) \<Rightarrow> 'a corpus \<Rightarrow> ('a \<times> 'a pyset) list \<Rightarrow>
     'a ranks \<times> ('a \<times> 'a pyset) list \<times> nat \<Rightarrow> 'a ranks \<times> ('a \<times> 'a pyset) list \<times> nat" where
  "index_pages iter corpus [] st = st"
| "index_pages iter corpus ((page, links) # rest) (pageRank, links_to, fresh) =
     (let pageRank' = AList.update page (1 / real (length corpus)) pageRank;
          (links_to', fresh') = index_links page (iter links) (links_to, fresh)
      in index_pages iter corpus rest (pageRank', links_to', fresh'))"

text \<open>
  Everything before the \<^verbatim>\<open>while\<close> loop: the corpus as the loop of line 118 leaves it, the
  initial ranks, the reverse index, and the count of the runs of line 129.
\<close>

definition prepare ::
  "('a pyset \<Rightarrow> 'a list) \<Rightarrow> 'a corpus \<Rightarrow>
     'a corpus \<times> 'a ranks \<times> ('a \<times> 'a pyset) list \<times> nat" where
  "prepare iter corpus =
     (let links_to = fold (\<lambda>page links_to. AList.update page [] links_to) (map fst corpus) [];
          corpus' = rewrite_sinks iter corpus
      in (corpus', index_pages iter corpus' corpus' ([], links_to, 0)))"

text \<open>
  Lines 137 and 138 for one page: \<^verbatim>\<open>pageRank[page] += d * (pageRank[link] / len(corpus[link]))\<close>
  for every link of \<open>links_to[page]\<close>. Both ranks are read from \<open>pageRank\<close>, the dict that
  the pass is writing to.
\<close>

fun sum_inlinks :: "'a corpus \<Rightarrow> real \<Rightarrow> 'a \<Rightarrow> 'a list \<Rightarrow> 'a ranks \<Rightarrow> error + 'a ranks" where
  "sum_inlinks corpus damping_factor page [] pageRank = Inr pageRank"
| "sum_inlinks corpus damping_factor page (link # links) pageRank =
     (case map_of pageRank page of None \<Rightarrow> Inl KeyError | Some cur \<Rightarrow>
      (case map_of pageRank link of None \<Rightarrow> Inl KeyError | Some r \<Rightarrow>
       (case map_of corpus link of None \<Rightarrow> Inl KeyError | Some out \<Rightarrow>
          if length out = 0 then Inl ZeroDivisionError
          else sum_inlinks corpus damping_factor page links
                 (AList.update page (cur + damping_factor * (r / real (length out))) pageRank))))"

text \<open>Lines 135 to 141: one pass over the pages of \<open>pageRank\<close>, from \<open>maxdifference = 0\<close>.\<close>

fun update_pages ::
  "('a pyset \<Rightarrow> 'a list) \<Rightarrow> 'a corpus \<Rightarrow> ('a \<times> 'a pyset) list \<Rightarrow> real \<Rightarrow> 'a ranks \<Rightarrow>
     'a list \<Rightarrow> 'a ranks \<times> real \<Rightarrow> error + 'a ranks \<times> real" where
  "update_pages iter corpus links_to damping_factor lastrank [] st = Inr st"
| "update_pages iter corpus links_to damping_factor lastrank (page # pages) (pageRank, maxdifference) =
     (if length corpus = 0 then Inl ZeroDivisionError else
      (case map_of links_to page of None \<Rightarrow> Inl KeyError | Some sources \<Rightarrow>
       (case sum_inlinks corpus damping_factor page (iter sources)
               (AList.update page ((1 - damping_factor) / real (length corpus)) pageRank) of
          Inl e \<Rightarrow> Inl e
        | Inr pageRank' \<Rightarrow>
           (case map_of pageRank' page of None \<Rightarrow> Inl KeyError | Some new \<Rightarrow>
            (case map_of lastrank page of None \<Rightarrow> Inl KeyError | Some old \<Rightarrow>
               update_pages iter corpus links_to damping_factor lastrank pages
                 (pageRank',
                  if \<bar>new - old\<bar> > maxdifference then \<bar>new - old\<bar> else maxdifference))))))"

definition one_pass ::
  "('a pyset \<Rightarrow> 'a list) \<Rightarrow> 'a corpus \<Rightarrow> ('a \<times> 'a pyset) list \<Rightarrow> real \<Rightarrow> 'a ranks \<Rightarrow>
     error + 'a ranks \<times> real" where
  "one_pass iter corpus links_to damping_factor pageRank =
     update_pages iter corpus links_to damping_factor pageRank (map fst pageRank) (pageRank, 0)"

text \<open>
  The \<^verbatim>\<open>while\<close> loop of line 132. It has no other exit than its condition, so the model is
  a partial function: \<open>None\<close> is a loop that never ends.
\<close>

partial_function (option) converge ::
  "('a pyset \<Rightarrow> 'a list) \<Rightarrow> 'a corpus \<Rightarrow> ('a \<times> 'a pyset) list \<Rightarrow> real \<Rightarrow> 'a ranks \<Rightarrow> real \<Rightarrow>
     (error + 'a ranks) option" where
  "converge iter corpus links_to damping_factor pageRank maxdifference =
     (if maxdifference > 1 / 10000 then
        (case one_pass iter corpus links_to damping_factor pageRank of
           Inl e \<Rightarrow> Some (Inl e)
         | Inr (pageRank', maxdifference') \<Rightarrow>
             converge iter corpus links_to damping_factor pageRank' maxdifference')
      else Some (Inr pageRank))"

text \<open>
  The function gives back two things: the caller's corpus as the call leaves it (the
  sets are written to before the loop starts), and what the call returns, if it does.
\<close>

definition iterate_pagerank ::
  "('a pyset \<Rightarrow> 'a list) \<Rightarrow> 'a corpus \<Rightarrow> real \<Rightarrow> 'a corpus \<times> (error + 'a ranks) option" where
  "iterate_pagerank iter corpus damping_factor =
     (case prepare iter corpus of
        (corpus', pageRank, links_to, fresh) \<Rightarrow>
          (corpus', converge iter corpus' links_to damping_factor pageRank 1))"

text \<open>
  The recurrence of the specification, one pass of it: every rank from the ranks \<open>prev\<close>
  of the pass before, \<open>rank(p) = (1 - d) / N + d * \<Sum> prev(q) / |outlinks(q)|\<close> over
  the pages \<open>q\<close> of \<open>links_to(p)\<close>.
\<close>

definition rank_of :: "'a ranks \<Rightarrow> 'a \<Rightarrow> real" where
  "rank_of ranks p = (case map_of ranks p of None \<Rightarrow> 0 | Some v \<Rightarrow> v)"

definition reference_pass ::
  "'a corpus \<Rightarrow> ('a \<times> 'a pyset) list \<Rightarrow> real \<Rightarrow> 'a ranks \<Rightarrow> 'a ranks" where
  "reference_pass corpus links_to damping prev =
     map (\<lambda>(p, _). (p, (1 - damping) / real (length corpus)
            + damping * (\<Sum>q\<leftarrow>(case map_of links_to p of None \<Rightarrow> [] | Some s \<Rightarrow> s).
                 rank_of prev q / real (length (case map_of corpus q of None \<Rightarrow> [] | Some out \<Rightarrow> out)))))
       prev"

text \<open>
  The state of the loop after \<open>k\<close> more passes, from the ranks \<open>pageRank\<close> and the
  difference \<open>maxdifference\<close> of the last pass: the loop without its exit.
\<close>

fun passes ::
  "('a pyset \<Rightarrow> 'a list) \<Rightarrow> 'a corpus \<Rightarrow> ('a \<times> 'a pyset) list \<Rightarrow> real \<Rightarrow> nat \<Rightarrow>
     'a ranks \<times> real \<Rightarrow> error + 'a ranks \<times> real" where
  "passes iter corpus links_to damping_factor 0 st = Inr st"
| "passes iter corpus links_to damping_factor (Suc k) (pageRank, maxdifference) =
     (case one_pass iter corpus links_to damping_factor pageRank of
        Inl e \<Rightarrow> Inl e
      | Inr st \<Rightarrow> passes iter corpus links_to damping_factor k st)"

definition after_passes ::
  "('a pyset \<Rightarrow> 'a list) \<Rightarrow> 'a corpus \<Rightarrow> real \<Rightarrow> nat \<Rightarrow> error + 'a ranks \<times> real" where
  "after_passes iter corpus damping_factor k =
     (case prepare iter corpus of
        (corpus', pageRank, links_to, fresh) \<Rightarrow>
          passes iter corpus' links_to damping_factor k (pageRank, 1))"

text \<open>The condition of line 132 on such a state: the loop goes on to another pass.\<close>

definition continues :: "error + 'a ranks \<times> real \<Rightarrow> bool" where
  "continues st = (case st of Inl e \<Rightarrow> False | Inr (pageRank, maxdifference) \<Rightarrow> maxdifference > 1 / 10000)"

section \<open>Lemmas on dicts and sets\<close>

lemma set_order_set: "set_order iter \<Longrightarrow> set (iter xs) = set xs"
  unfolding set_order_def by (metis set_mset_mset)

lemma set_order_distinct: "set_order iter \<Longrightarrow> distinct (iter xs) = distinct xs"
  unfolding set_order_def by (metis mset_eq_imp_distinct_iff)

lemma set_order_length: "set_order iter \<Longrightarrow> length (iter xs) = length xs"
  unfolding set_order_def by (metis size_mset)

lemma set_order_id: "set_order id"
  by (simp add: set_order_def)

lemma set_order_rev: "set_order rev"
  by (simp add: set_order_def)

lemma fill_fresh:
  "distinct ks \<Longrightarrow> set ks \<inter> fst ` set acc = {} \<Longrightarrow>
     fold (\<lambda>key model. AList.update key c model) ks acc = acc @ map (\<lambda>k. (k, c)) ks"
proof (induction ks arbitrary: acc)
  case Nil
  then show ?case by simp
next
  case (Cons k ks)
  have fresh: "k \<notin> fst ` set acc" using Cons.prems by auto
  then have upd: "AList.update k c acc = acc @ [(k, c)]"
    by (induction acc) auto
  have "set ks \<inter> fst ` set (acc @ [(k, c)]) = {}" using Cons.prems by auto
  with Cons show ?case by (simp add: upd)
qed

lemma fill_empty:
  "distinct ks \<Longrightarrow> fold (\<lambda>key model. AList.update key c model) ks [] = map (\<lambda>k. (k, c)) ks"
  using fill_fresh [of ks "[]" c] by simp

lemma update_map_value:
  "distinct (map fst al) \<Longrightarrow>
     AList.update k v (map (\<lambda>(key, w). (key, f key w)) al) =
       (if k \<in> fst ` set al then map (\<lambda>(key, w). (key, if key = k then v else f key w)) al
        else map (\<lambda>(key, w). (key, f key w)) al @ [(k, v)])"
  by (induction al) (auto simp: rev_image_eqI)

lemma add_links_map:
  "distinct links \<Longrightarrow> distinct (map fst model) \<Longrightarrow> set links \<subseteq> fst ` set model \<Longrightarrow>
     add_links links x model = Inr (map (\<lambda>(key, v). (key, if key \<in> set links then v + x else v)) model)"
proof (induction links arbitrary: model)
  case Nil
  then show ?case by simp
next
  case (Cons link links)
  from Cons.prems obtain v where v: "map_of model link = Some v"
    by (metis list.set_intros(1) subsetD weak_map_of_SomeI map_of_eq_None_iff not_Some_eq)
  let ?m = "AList.update link (v + x) model"
  have m: "?m = map (\<lambda>(key, w). (key, if key = link then v + x else w)) model"
    using update_map_value [of model link "v + x" "\<lambda>key w. w"] Cons.prems by simp
  have "distinct (map fst ?m)" using Cons.prems by (simp add: distinct_update)
  moreover have "set links \<subseteq> fst ` set ?m" using Cons.prems by (auto simp: dom_update)
  ultimately have "add_links links x ?m =
      Inr (map (\<lambda>(key, w). (key, if key \<in> set links then w + x else w)) ?m)"
    using Cons.IH Cons.prems by simp
  also have "map (\<lambda>(key, w). (key, if key \<in> set links then w + x else w)) ?m =
      map (\<lambda>(key, w). (key, if key \<in> set (link # links) then w + x else w)) model"
  proof -
    have "\<And>key w. (key, w) \<in> set model \<Longrightarrow> key = link \<Longrightarrow> w = v"
      using v Cons.prems(2) by (metis map_of_is_SomeI option.inject)
    then show ?thesis using Cons.prems(1) by (auto simp: m)
  qed
  finally show ?case using v by simp
qed

lemma transition_model_eq:
  assumes "set_order iter" "graph corpus" "map_of corpus page = Some links"
  shows "transition_model iter corpus page damping =
           Inr (map (\<lambda>(key, _). (key, reference_probability corpus links damping key)) corpus)"
proof -
  have d: "distinct (map fst corpus)" using assms(2) by (simp add: graph_def)
  have mem: "(page, links) \<in> set corpus" using assms(3) by (rule map_of_SomeD)
  then have l: "distinct links" "set links \<subseteq> fst ` set corpus"
    using assms(2) by (auto simp: graph_def list_all_iff)
  show ?thesis
  proof (cases "links = []")
    case True
    then show ?thesis
      using assms(3) d
      by (simp add: transition_model_def fill_empty reference_probability_def comp_def case_prod_beta)
  next
    case False
    let ?base = "map (\<lambda>k. (k, (1 - damping) / real (length corpus))) (map fst corpus)"
    have "add_links (iter links) (damping / real (length links)) ?base =
        Inr (map (\<lambda>(key, v). (key, if key \<in> set (iter links) then v + damping / real (length links) else v)) ?base)"
      using l d assms(1)
      by (intro add_links_map) (simp_all add: set_order_set set_order_distinct comp_def image_image)
    then show ?thesis
      using False assms(3) d assms(1)
      by (simp add: transition_model_def fill_empty reference_probability_def comp_def
          case_prod_beta set_order_set)
  qed
qed


section \<open>The transition model\<close>

text \<open>
  C3. For a graph, a page that is one of its keys and any damping (those of \<open>[0, 1]\<close>
  among them), \<open>transition_model\<close> returns the distribution of the specification, one
  entry per page in the order of the graph: \<open>1 / |graph|\<close> everywhere when the page has
  no outlink, and otherwise \<open>(1 - damping) / |graph|\<close>, plus \<open>damping / |outlinks|\<close> for
  the pages the page links to.
\<close>

theorem transition_model_reference:
  assumes "set_order iter" and "graph corpus" and "map_of corpus page = Some links"
  shows "transition_model iter corpus page damping =
           Inr (map (\<lambda>(key, _). (key, reference_probability corpus links damping key)) corpus)"
  using assms by (rule transition_model_eq)

theorem transition_model_reference_witness:
  "set_order (id :: string list \<Rightarrow> string list) \<and>
   graph [(''A'', [''B'', ''C'']), (''B'', []), (''C'', [''A''])] \<and>
   transition_model id [(''A'', [''B'', ''C'']), (''B'', []), (''C'', [''A''])] ''A'' (17 / 20) =
     Inr [(''A'', 1 / 20), (''B'', 19 / 40), (''C'', 19 / 40)] \<and>
   transition_model id [(''A'', [''B'', ''C'']), (''B'', []), (''C'', [''A''])] ''B'' (17 / 20) =
     Inr [(''A'', 1 / 3), (''B'', 1 / 3), (''C'', 1 / 3)]"
proof -
  let ?g = "[(''A'', [''B'', ''C'']), (''B'', []), (''C'', [''A''])]"
  have o: "set_order (id :: string list \<Rightarrow> string list)" by (simp add: set_order_def)
  have g: "graph ?g" by (simp add: graph_def)
  have a: "map_of ?g ''A'' = Some [''B'', ''C'']" by simp
  have b: "map_of ?g ''B'' = Some []" by simp
  show ?thesis
    using o g transition_model_reference [OF o g a, of "17 / 20"]
      transition_model_reference [OF o g b, of "17 / 20"]
    by (simp add: reference_probability_def)
qed










section \<open>The sampler\<close>





section \<open>The preparation of the solver\<close>

lemma set_update_fresh:
  "distinct t \<Longrightarrow> set s \<inter> set t = {} \<Longrightarrow> set_update s t = s @ t"
  unfolding set_update_def
proof (induction t arbitrary: s)
  case Nil
  then show ?case by simp
next
  case (Cons x t)
  then have "set (s @ [x]) \<inter> set t = {}" by auto
  with Cons show ?case by simp
qed

lemma rewrite_sinks_eq:
  assumes "set_order iter" and "distinct (map fst corpus)"
  shows "rewrite_sinks iter corpus =
           map (\<lambda>(page, links). (page, if links = [] then iter (map fst corpus) else links)) corpus"
proof -
  have "distinct (iter (map fst corpus))"
    using assms by (simp add: set_order_distinct)
  then have "set_update [] (iter (map fst corpus)) = iter (map fst corpus)"
    using set_update_fresh [of "iter (map fst corpus)" "[]"] by simp
  then show ?thesis by (auto simp: rewrite_sinks_def)
qed

lemma rewrite_sinks_keys: "map fst (rewrite_sinks iter corpus) = map fst corpus"
  by (simp add: rewrite_sinks_def comp_def case_prod_beta)

lemma rewrite_sinks_length: "length (rewrite_sinks iter corpus) = length corpus"
  by (simp add: rewrite_sinks_def)

lemma rewrite_sinks_graph:
  assumes "set_order iter" and "graph corpus"
  shows "graph (rewrite_sinks iter corpus)"
proof -
  have d: "distinct (map fst corpus)" using assms(2) by (simp add: graph_def)
  have k: "fst ` set (rewrite_sinks iter corpus) = fst ` set corpus"
    using rewrite_sinks_keys [of iter corpus] by (metis list.set_map)
  have "distinct links \<and> (\<forall>l \<in> set links. l \<in> fst ` set corpus)"
    if "(page, links) \<in> set (rewrite_sinks iter corpus)" for page links
  proof -
    from that obtain old where old: "(page, old) \<in> set corpus"
      and links: "links = (if old = [] then iter (map fst corpus) else old)"
      by (auto simp: rewrite_sinks_eq [OF assms(1) d])
    show ?thesis
    proof (cases "old = []")
      case True
      then show ?thesis
        using links d assms(1) by (simp add: set_order_distinct set_order_set)
    next
      case False
      then show ?thesis
        using links old assms(2) by (auto simp: graph_def list_all_iff)
    qed
  qed
  then show ?thesis
    using d by (auto simp: graph_def list_all_iff rewrite_sinks_keys k)
qed


lemma index_links_known:
  "set links \<subseteq> fst ` set links_to \<Longrightarrow>
     \<exists>links_to'. index_links page links (links_to, fresh) = (links_to', fresh) \<and>
        map fst links_to' = map fst links_to"
proof (induction links arbitrary: links_to)
  case Nil
  then show ?case by simp
next
  case (Cons link links)
  then obtain s where s: "map_of links_to link = Some s"
    by (metis list.set_intros(1) subsetD map_of_eq_None_iff not_Some_eq)
  let ?lt = "AList.update link (set_add page s) links_to"
  have keys: "map fst ?lt = map fst links_to"
    using s by (simp add: update_keys map_of_eq_None_iff [symmetric])
  then have "fst ` set ?lt = fst ` set links_to" by (metis list.set_map)
  with Cons.prems have "set links \<subseteq> fst ` set ?lt" by simp
  from Cons.IH [OF this] keys s show ?case by auto
qed

lemma index_pages_known:
  "\<forall>(page, links) \<in> set entries. set (iter links) \<subseteq> fst ` set links_to \<Longrightarrow>
     fst (index_pages iter corpus entries (pageRank, links_to, fresh)) =
       fold (\<lambda>page pr. AList.update page (1 / real (length corpus)) pr) (map fst entries) pageRank \<and>
     map fst (fst (snd (index_pages iter corpus entries (pageRank, links_to, fresh)))) = map fst links_to \<and>
     snd (snd (index_pages iter corpus entries (pageRank, links_to, fresh))) = fresh"
proof (induction entries arbitrary: pageRank links_to)
  case Nil
  then show ?case by simp
next
  case (Cons entry entries)
  obtain page links where e: "entry = (page, links)" by (cases entry)
  with Cons.prems have "set (iter links) \<subseteq> fst ` set links_to" by simp
  from index_links_known [OF this, of page fresh]
  obtain lt where lt: "index_links page (iter links) (links_to, fresh) = (lt, fresh)"
    and keys: "map fst lt = map fst links_to"
    by blast
  from keys have "fst ` set lt = fst ` set links_to" by (metis list.set_map)
  with Cons.prems have "\<forall>(page, links) \<in> set entries. set (iter links) \<subseteq> fst ` set lt"
    by simp
  from Cons.IH [OF this, of "AList.update page (1 / real (length corpus)) pageRank"] lt keys
  show ?case by (simp add: e)
qed

lemma prepare_graph:
  assumes "set_order iter" and "graph corpus"
  shows "\<exists>links_to. prepare iter corpus =
           (rewrite_sinks iter corpus, map (\<lambda>page. (page, 1 / real (length corpus))) (map fst corpus),
            links_to, 0) \<and>
         map fst links_to = map fst corpus"
proof -
  let ?c = "rewrite_sinks iter corpus"
  let ?lt = "fold (\<lambda>page links_to. AList.update page [] links_to) (map fst corpus) []"
  have d: "distinct (map fst corpus)" using assms(2) by (simp add: graph_def)
  have lt: "?lt = map (\<lambda>k. (k, [])) (map fst corpus)" using d by (rule fill_empty)
  have ltk: "map fst ?lt = map fst corpus" unfolding lt by (simp add: comp_def)
  then have ltk': "fst ` set ?lt = fst ` set corpus" by (metis list.set_map)
  have g: "graph ?c" using assms by (rule rewrite_sinks_graph)
  have k: "fst ` set ?c = fst ` set corpus"
    using rewrite_sinks_keys [of iter corpus] by (metis list.set_map)
  have sub: "\<forall>(page, links) \<in> set ?c. set (iter links) \<subseteq> fst ` set ?lt"
  proof (clarify)
    fix page links l
    assume "(page, links) \<in> set ?c" and "l \<in> set (iter links)"
    then have "l \<in> set links" using assms(1) by (simp add: set_order_set)
    with \<open>(page, links) \<in> set ?c\<close> g have "l \<in> fst ` set ?c"
      unfolding graph_def list_all_iff by blast
    then show "l \<in> fst ` set ?lt" unfolding k ltk' .
  qed
  note ip = index_pages_known [OF sub, of ?c "[]" 0]
  have pr: "fold (\<lambda>page pr. AList.update page (1 / real (length ?c)) pr) (map fst ?c) [] =
      map (\<lambda>page. (page, 1 / real (length corpus))) (map fst corpus)"
    unfolding rewrite_sinks_keys rewrite_sinks_length using d by (rule fill_empty)
  let ?r = "index_pages iter ?c ?c ([], ?lt, 0)"
  have "prepare iter corpus = (?c, ?r)"
    by (simp add: prepare_def Let_def)
  also have "?r = (fst ?r, fst (snd ?r), snd (snd ?r))" by simp
  also have "fst ?r = map (\<lambda>page. (page, 1 / real (length corpus))) (map fst corpus)"
    using ip pr by simp
  also have "snd (snd ?r) = 0" using ip by simp
  finally have "prepare iter corpus =
      (?c, map (\<lambda>page. (page, 1 / real (length corpus))) (map fst corpus), fst (snd ?r), 0)" .
  moreover have "map fst (fst (snd ?r)) = map fst corpus" using ip ltk by simp
  ultimately show ?thesis by (intro exI conjI)
qed

lemma iterate_pagerank_corpus:
  "fst (iterate_pagerank iter corpus damping) = rewrite_sinks iter corpus"
  by (simp add: iterate_pagerank_def prepare_def Let_def split: prod.splits)

lemma two_page_prepare:
  "prepare id [(''A'', [''B'']), (''B'', [])] =
     ([(''A'', [''B'']), (''B'', [''A'', ''B''])], [(''A'', 1 / 2), (''B'', 1 / 2)],
      [(''A'', [''B'']), (''B'', [''A'', ''B''])], 0)"
  by (simp add: prepare_def rewrite_sinks_def set_update_def set_add_def)

lemma two_page_run:
  "iterate_pagerank id [(''A'', [''B'']), (''B'', [])] (17 / 20) =
     ([(''A'', [''B'']), (''B'', [''A'', ''B''])],
      Some (Inr [(''A'', 22358748457875678886844270266106007640723209567 /
                        90071992547409920000000000000000000000000000000),
                 (''B'', 29366782618485081001352097887856721403860790070423 /
                        72057594037927936000000000000000000000000000000000)]))"
  by (simp add: iterate_pagerank_def two_page_prepare one_pass_def converge.simps)

text \<open>
  C10. For a graph (every outlink is a key), the \<^verbatim>\<open>else\<close> branch of line 128 never runs
  while the reverse index is built, and the finished index has the keys of the graph,
  in the same order.
\<close>

theorem reverse_index_keys:
  assumes "set_order iter" and "graph corpus"
  shows "\<exists>corpus' pageRank links_to.
           prepare iter corpus = (corpus', pageRank, links_to, 0) \<and>
           fst ` set links_to = fst ` set corpus \<and> map fst links_to = map fst corpus"
proof -
  from prepare_graph [OF assms]
  obtain links_to where p: "prepare iter corpus =
      (rewrite_sinks iter corpus, map (\<lambda>page. (page, 1 / real (length corpus))) (map fst corpus),
       links_to, 0)"
    and k: "map fst links_to = map fst corpus"
    by (elim exE conjE)
  from k have "fst ` set links_to = fst ` set corpus" by (metis list.set_map)
  with p k show ?thesis by (intro exI conjI)
qed

theorem reverse_index_keys_witness:
  "set_order (id :: string list \<Rightarrow> string list) \<and>
   graph [(''A'', [''B'', ''C'']), (''B'', []), (''C'', [''A''])] \<and>
   (\<exists>corpus' pageRank links_to.
      prepare id [(''A'', [''B'', ''C'']), (''B'', []), (''C'', [''A''])] =
        (corpus', pageRank, links_to, 0) \<and>
      fst ` set links_to = {''A'', ''B'', ''C''})"
proof -
  let ?g = "[(''A'', [''B'', ''C'']), (''B'', []), (''C'', [''A''])]"
  have o: "set_order (id :: string list \<Rightarrow> string list)" by (simp add: set_order_def)
  have g: "graph ?g" by (simp add: graph_def)
  from reverse_index_keys [OF o g]
  obtain corpus' pageRank links_to where "prepare id ?g = (corpus', pageRank, links_to, 0)"
    and "fst ` set links_to = fst ` set ?g"
    by (elim exE conjE)
  moreover have "fst ` set ?g = {''A'', ''B'', ''C''}" by simp
  ultimately show ?thesis using o g by (intro exI conjI) simp_all
qed

section \<open>The caller's graph\<close>

text \<open>
  C1 as stated fails on the graph \<open>{A: {B}, B: {}}\<close>: the call returns, and the caller's
  graph then has \<open>B: {A, B}\<close>.
\<close>

theorem graph_unchanged_counterexample:
  "map_of [(''A'', [''B'']), (''B'', [])] ''B'' = Some [] \<and>
   map_of (fst (iterate_pagerank id [(''A'', [''B'']), (''B'', [])] (17 / 20))) ''B'' =
     Some [''A'', ''B''] \<and>
   snd (iterate_pagerank id [(''A'', [''B'']), (''B'', [])] (17 / 20)) \<noteq> None"
  by (simp add: two_page_run)

text \<open>
  C1, amended. \<open>iterate_pagerank\<close> writes to the caller's graph: it leaves the keys and
  the outlinks of every page that has outlinks as they are, and gives every page
  without outlinks the set of all pages as its outlinks.
\<close>

theorem sink_rewrite_in_place:
  assumes "set_order iter" and "graph corpus"
  shows "map fst (fst (iterate_pagerank iter corpus damping)) = map fst corpus \<and>
         (\<forall>page links. map_of corpus page = Some links \<longrightarrow>
            (\<exists>links'. map_of (fst (iterate_pagerank iter corpus damping)) page = Some links' \<and>
               (if links = [] then set links' = fst ` set corpus else links' = links)))"
proof -
  have d: "distinct (map fst corpus)" using assms(2) by (simp add: graph_def)
  let ?f = "\<lambda>links. if links = [] then iter (map fst corpus) else links"
  have "rewrite_sinks iter corpus = map (\<lambda>(page, links). (page, ?f links)) corpus"
    using assms(1) d by (rule rewrite_sinks_eq)
  then have m: "map_of (rewrite_sinks iter corpus) = map_option ?f \<circ> map_of corpus"
    by (simp only: map_of_map)
  have "set (iter (map fst corpus)) = fst ` set corpus"
    using assms(1) by (simp add: set_order_set)
  then show ?thesis
    by (simp add: iterate_pagerank_corpus rewrite_sinks_keys m)
qed

theorem sink_rewrite_in_place_witness:
  "set_order (rev :: string list \<Rightarrow> string list) \<and> graph [(''A'', [''B'']), (''B'', [])] \<and>
   map_of (fst (iterate_pagerank rev [(''A'', [''B'']), (''B'', [])] (17 / 20))) ''A'' = Some [''B''] \<and>
   (\<exists>links'. map_of (fst (iterate_pagerank rev [(''A'', [''B'']), (''B'', [])] (17 / 20))) ''B'' =
      Some links' \<and> set links' = {''A'', ''B''})"
proof -
  let ?g = "[(''A'', [''B'']), (''B'', [])]"
  have o: "set_order (rev :: string list \<Rightarrow> string list)" by (simp add: set_order_def)
  have g: "graph ?g" by (simp add: graph_def)
  have a: "map_of ?g ''A'' = Some [''B'']" and b: "map_of ?g ''B'' = Some []" by simp_all
  from sink_rewrite_in_place [OF o g, of "17 / 20"]
  have r: "\<forall>page links. map_of ?g page = Some links \<longrightarrow>
            (\<exists>links'. map_of (fst (iterate_pagerank rev ?g (17 / 20))) page = Some links' \<and>
               (if links = [] then set links' = fst ` set ?g else links' = links))"
    by (elim conjE)
  from r a have "map_of (fst (iterate_pagerank rev ?g (17 / 20))) ''A'' = Some [''B'']"
    by fastforce
  moreover from r b have "\<exists>links'. map_of (fst (iterate_pagerank rev ?g (17 / 20))) ''B'' =
      Some links' \<and> set links' = {''A'', ''B''}"
    by fastforce
  ultimately show ?thesis using o g by (intro conjI)
qed

section \<open>The passes of the solver\<close>

lemma mset_single: "mset xs = mset [a] \<Longrightarrow> xs = [a]"
  by simp

lemma mset_pair: "mset xs = mset [a, b] \<Longrightarrow> xs = [a, b] \<or> xs = [b, a]"
proof -
  assume m: "mset xs = mset [a, b]"
  then have "length xs = 2" by (metis length_Cons list.size(3) size_mset numeral_2_eq_2)
  then obtain x y where xs: "xs = [x, y]"
    by (metis (no_types, opaque_lifting) length_0_conv length_Suc_conv numeral_2_eq_2)
  with m show ?thesis by (auto simp: add_eq_conv_diff)
qed

lemma set_order_single: "set_order iter \<Longrightarrow> iter [a] = [a]"
  by (simp add: set_order_def mset_single)

lemma set_order_pair: "set_order iter \<Longrightarrow> iter [a, b] = [a, b] \<or> iter [a, b] = [b, a]"
  by (simp add: set_order_def mset_pair)

lemma two_page_prepare_any:
  assumes "set_order iter"
  shows "prepare iter [(''A'', [''B'']), (''B'', [])] =
     ([(''A'', [''B'']), (''B'', iter [''A'', ''B''])], [(''A'', 1 / 2), (''B'', 1 / 2)],
      [(''A'', [''B'']), (''B'', [''A'', ''B''])], 0)"
proof -
  have s: "iter [''B''] = [''B'']" using assms by (rule set_order_single)
  consider "iter [''A'', ''B''] = [''A'', ''B'']"
    | "iter [''A'', ''B''] = [''B'', ''A'']" "iter [''B'', ''A''] = [''B'', ''A'']"
    | "iter [''A'', ''B''] = [''B'', ''A'']" "iter [''B'', ''A''] = [''A'', ''B'']"
    using set_order_pair [OF assms, of "''A''" "''B''"] set_order_pair [OF assms, of "''B''" "''A''"]
    by blast
  then show ?thesis
  proof cases
    case 1
    then show ?thesis by (simp add: prepare_def rewrite_sinks_def set_update_def set_add_def s)
  next
    case 2
    then show ?thesis by (simp add: prepare_def rewrite_sinks_def set_update_def set_add_def s)
  next
    case 3
    then show ?thesis by (simp add: prepare_def rewrite_sinks_def set_update_def set_add_def s)
  qed
qed

lemma two_page_converge_forward:
  assumes "iter [''B''] = [''B'']" and "iter [''A'', ''B''] = [''A'', ''B'']" and "length out = 2"
  shows "converge iter [(''A'', [''B'']), (''B'', out)] [(''A'', [''B'']), (''B'', [''A'', ''B''])]
           (17 / 20) [(''A'', 1 / 2), (''B'', 1 / 2)] 1 =
         Some (Inr [(''A'', 22358748457875678886844270266106007640723209567 /
                           90071992547409920000000000000000000000000000000),
                    (''B'', 29366782618485081001352097887856721403860790070423 /
                           72057594037927936000000000000000000000000000000000)])"
  by (simp add: one_pass_def converge.simps assms)

lemma two_page_converge_backward:
  assumes "iter [''B''] = [''B'']" and "iter [''A'', ''B''] = [''B'', ''A'']" and "length out = 2"
  shows "converge iter [(''A'', [''B'']), (''B'', out)] [(''A'', [''B'']), (''B'', [''A'', ''B''])]
           (17 / 20) [(''A'', 1 / 2), (''B'', 1 / 2)] 1 =
         Some (Inr [(''A'', 1265378591293863941438233 / 6710886400000000000000000),
                    (''B'', 35855955731995687004449961 / 134217728000000000000000000)])"
  by (simp add: one_pass_def converge.simps assms)

text \<open>
  C2. The code does not do what the claim says: a pass reads \<open>pageRank[link]\<close> from the
  dict it is writing to, not from the copy \<open>lastrank\<close> taken before the pass. On the
  graph \<open>{A: {B}, B: {A}, C: {A}}\<close> with damping 0.85, the first pass gives B the rank
  \<open>689 / 1200\<close>, from the rank \<open>37 / 60\<close> that the same pass has just given to A; the
  recurrence of the specification gives B the rank \<open>1 / 3\<close>, from the rank \<open>1 / 3\<close> that A
  had before the pass. Both iteration orders of the set \<open>links_to[A]\<close> give the same.
\<close>

theorem pass_reads_updated_ranks:
  "prepare id [(''A'', [''B'']), (''B'', [''A'']), (''C'', [''A''])] =
     ([(''A'', [''B'']), (''B'', [''A'']), (''C'', [''A''])],
      [(''A'', 1 / 3), (''B'', 1 / 3), (''C'', 1 / 3)],
      [(''A'', [''B'', ''C'']), (''B'', [''A'']), (''C'', [])], 0) \<and>
   one_pass id [(''A'', [''B'']), (''B'', [''A'']), (''C'', [''A''])]
      [(''A'', [''B'', ''C'']), (''B'', [''A'']), (''C'', [])] (17 / 20)
      [(''A'', 1 / 3), (''B'', 1 / 3), (''C'', 1 / 3)] =
     Inr ([(''A'', 37 / 60), (''B'', 689 / 1200), (''C'', 1 / 20)], 17 / 60) \<and>
   one_pass rev [(''A'', [''B'']), (''B'', [''A'']), (''C'', [''A''])]
      [(''A'', [''B'', ''C'']), (''B'', [''A'']), (''C'', [])] (17 / 20)
      [(''A'', 1 / 3), (''B'', 1 / 3), (''C'', 1 / 3)] =
     Inr ([(''A'', 37 / 60), (''B'', 689 / 1200), (''C'', 1 / 20)], 17 / 60) \<and>
   reference_pass [(''A'', [''B'']), (''B'', [''A'']), (''C'', [''A''])]
      [(''A'', [''B'', ''C'']), (''B'', [''A'']), (''C'', [])] (17 / 20)
      [(''A'', 1 / 3), (''B'', 1 / 3), (''C'', 1 / 3)] =
     [(''A'', 37 / 60), (''B'', 1 / 3), (''C'', 1 / 20)]"
proof (intro conjI)
  show "prepare id [(''A'', [''B'']), (''B'', [''A'']), (''C'', [''A''])] =
     ([(''A'', [''B'']), (''B'', [''A'']), (''C'', [''A''])],
      [(''A'', 1 / 3), (''B'', 1 / 3), (''C'', 1 / 3)],
      [(''A'', [''B'', ''C'']), (''B'', [''A'']), (''C'', [])], 0)"
    by (simp add: prepare_def rewrite_sinks_def set_add_def)
  show "one_pass id [(''A'', [''B'']), (''B'', [''A'']), (''C'', [''A''])]
      [(''A'', [''B'', ''C'']), (''B'', [''A'']), (''C'', [])] (17 / 20)
      [(''A'', 1 / 3), (''B'', 1 / 3), (''C'', 1 / 3)] =
     Inr ([(''A'', 37 / 60), (''B'', 689 / 1200), (''C'', 1 / 20)], 17 / 60)"
    by (simp add: one_pass_def)
  show "one_pass rev [(''A'', [''B'']), (''B'', [''A'']), (''C'', [''A''])]
      [(''A'', [''B'', ''C'']), (''B'', [''A'']), (''C'', [])] (17 / 20)
      [(''A'', 1 / 3), (''B'', 1 / 3), (''C'', 1 / 3)] =
     Inr ([(''A'', 37 / 60), (''B'', 689 / 1200), (''C'', 1 / 20)], 17 / 60)"
    by (simp add: one_pass_def)
  show "reference_pass [(''A'', [''B'']), (''B'', [''A'']), (''C'', [''A''])]
      [(''A'', [''B'', ''C'']), (''B'', [''A'']), (''C'', [])] (17 / 20)
      [(''A'', 1 / 3), (''B'', 1 / 3), (''C'', 1 / 3)] =
     [(''A'', 37 / 60), (''B'', 1 / 3), (''C'', 1 / 20)]"
    by (simp add: reference_pass_def rank_of_def)
qed

text \<open>
  C8 as stated fails: on the graph \<open>{A: {B}, B: {}}\<close> with damping 0.85 the call
  returns ranks that are not \<open>1 / 2\<close>, in either iteration order of the set
  \<open>links_to[B] = {A, B}\<close>.
\<close>

theorem two_page_ranks_counterexample:
  "snd (iterate_pagerank id [(''A'', [''B'']), (''B'', [])] (17 / 20)) =
     Some (Inr [(''A'', 22358748457875678886844270266106007640723209567 /
                       90071992547409920000000000000000000000000000000),
                (''B'', 29366782618485081001352097887856721403860790070423 /
                       72057594037927936000000000000000000000000000000000)]) \<and>
   (22358748457875678886844270266106007640723209567::real) /
      90071992547409920000000000000000000000000000000 \<noteq> 1 / 2 \<and>
   snd (iterate_pagerank rev [(''A'', [''B'']), (''B'', [])] (17 / 20)) =
     Some (Inr [(''A'', 1265378591293863941438233 / 6710886400000000000000000),
                (''B'', 35855955731995687004449961 / 134217728000000000000000000)]) \<and>
   (1265378591293863941438233::real) / 6710886400000000000000000 \<noteq> 1 / 2"
proof -
  have f: "snd (iterate_pagerank id [(''A'', [''B'']), (''B'', [])] (17 / 20)) =
     Some (Inr [(''A'', 22358748457875678886844270266106007640723209567 /
                       90071992547409920000000000000000000000000000000),
                (''B'', 29366782618485081001352097887856721403860790070423 /
                       72057594037927936000000000000000000000000000000000)])"
    using two_page_converge_forward [of id "[''A'', ''B'']"]
    by (simp add: iterate_pagerank_def two_page_prepare_any [OF set_order_id])
  have b: "snd (iterate_pagerank rev [(''A'', [''B'']), (''B'', [])] (17 / 20)) =
     Some (Inr [(''A'', 1265378591293863941438233 / 6710886400000000000000000),
                (''B'', 35855955731995687004449961 / 134217728000000000000000000)])"
    using two_page_converge_backward [of rev "[''B'', ''A'']"]
    by (simp add: iterate_pagerank_def two_page_prepare_any [OF set_order_rev])
  show ?thesis using f b by simp
qed

text \<open>
  C8, amended. On the graph \<open>{A: {B}, B: {}}\<close> with damping 0.85, \<open>iterate_pagerank\<close>
  rewrites the outlinks of B to \<open>{A, B}\<close>, builds the reverse index
  \<open>{A: {B}, B: {A, B}}\<close> and returns a table with one entry for A and one for B. The
  ranks \<open>1 / 2\<close> and \<open>1 / 2\<close> are not a fixed point of the recurrence of the specification
  on the rewritten graph (one pass of it makes them \<open>23 / 80\<close> and \<open>57 / 80\<close>); its fixed
  point is \<open>20 / 57\<close> for A and \<open>37 / 57\<close> for B.
\<close>

theorem two_page_solver:
  assumes "set_order iter"
  shows "\<exists>out a b.
           iterate_pagerank iter [(''A'', [''B'']), (''B'', [])] (17 / 20) =
             ([(''A'', [''B'']), (''B'', out)], Some (Inr [(''A'', a), (''B'', b)])) \<and>
           set out = {''A'', ''B''} \<and>
           (\<exists>pageRank. prepare iter [(''A'', [''B'']), (''B'', [])] =
              ([(''A'', [''B'']), (''B'', out)], pageRank, [(''A'', [''B'']), (''B'', [''A'', ''B''])], 0)) \<and>
           reference_pass [(''A'', [''B'']), (''B'', out)] [(''A'', [''B'']), (''B'', [''A'', ''B''])]
             (17 / 20) [(''A'', 1 / 2), (''B'', 1 / 2)] = [(''A'', 23 / 80), (''B'', 57 / 80)] \<and>
           reference_pass [(''A'', [''B'']), (''B'', out)] [(''A'', [''B'']), (''B'', [''A'', ''B''])]
             (17 / 20) [(''A'', 20 / 57), (''B'', 37 / 57)] = [(''A'', 20 / 57), (''B'', 37 / 57)]"
proof -
  let ?out = "iter [''A'', ''B'']"
  let ?c = "[(''A'', [''B'']), (''B'', ?out)]"
  let ?lt = "[(''A'', [''B'']), (''B'', [''A'', ''B''])]"
  have p: "prepare iter [(''A'', [''B'']), (''B'', [])] = (?c, [(''A'', 1 / 2), (''B'', 1 / 2)], ?lt, 0)"
    using assms by (rule two_page_prepare_any)
  have s: "iter [''B''] = [''B'']" using assms by (rule set_order_single)
  have len: "length ?out = 2" using assms by (simp add: set_order_length)
  have out: "set ?out = {''A'', ''B''}" using assms by (simp add: set_order_set)
  have "\<exists>a b. converge iter ?c ?lt (17 / 20) [(''A'', 1 / 2), (''B'', 1 / 2)] 1 =
      Some (Inr [(''A'', a), (''B'', b)])"
  proof (rule disjE [OF set_order_pair [OF assms, of "''A''" "''B''"]])
    assume "iter [''A'', ''B''] = [''A'', ''B'']"
    from two_page_converge_forward [of iter ?out, OF s this len] show ?thesis
      by (intro exI)
  next
    assume "iter [''A'', ''B''] = [''B'', ''A'']"
    from two_page_converge_backward [of iter ?out, OF s this len] show ?thesis
      by (intro exI)
  qed
  then obtain a b where c: "converge iter ?c ?lt (17 / 20) [(''A'', 1 / 2), (''B'', 1 / 2)] 1 =
      Some (Inr [(''A'', a), (''B'', b)])"
    by (elim exE)
  have "iterate_pagerank iter [(''A'', [''B'']), (''B'', [])] (17 / 20) =
      (?c, Some (Inr [(''A'', a), (''B'', b)]))"
    unfolding iterate_pagerank_def p using c by simp
  moreover have "reference_pass ?c ?lt (17 / 20) [(''A'', 1 / 2), (''B'', 1 / 2)] =
      [(''A'', 23 / 80), (''B'', 57 / 80)]"
    by (simp add: reference_pass_def rank_of_def len)
  moreover have "reference_pass ?c ?lt (17 / 20) [(''A'', 20 / 57), (''B'', 37 / 57)] =
      [(''A'', 20 / 57), (''B'', 37 / 57)]"
    by (simp add: reference_pass_def rank_of_def len)
  ultimately show ?thesis using out p by (intro exI conjI)
qed

theorem two_page_solver_witness:
  "set_order (rev :: string list \<Rightarrow> string list) \<and>
   (\<exists>out a b.
      iterate_pagerank rev [(''A'', [''B'']), (''B'', [])] (17 / 20) =
        ([(''A'', [''B'']), (''B'', out)], Some (Inr [(''A'', a), (''B'', b)])) \<and>
      set out = {''A'', ''B''})"
proof -
  have o: "set_order (rev :: string list \<Rightarrow> string list)" by (simp add: set_order_def)
  from two_page_solver [OF o]
  obtain out a b where "iterate_pagerank rev [(''A'', [''B'']), (''B'', [])] (17 / 20) =
        ([(''A'', [''B'']), (''B'', out)], Some (Inr [(''A'', a), (''B'', b)]))"
    and "set out = {''A'', ''B''}"
    by (elim exE conjE)
  with o show ?thesis by (intro exI conjI)
qed

section \<open>The loop of the solver\<close>

lemma converge_returns:
  "passes iter corpus links_to damping k (pageRank, maxdifference) = Inr (ranks, m) \<Longrightarrow>
   m \<le> 1 / 10000 \<Longrightarrow>
   \<forall>j<k. continues (passes iter corpus links_to damping j (pageRank, maxdifference)) \<Longrightarrow>
     converge iter corpus links_to damping pageRank maxdifference = Some (Inr ranks)"
proof (induction k arbitrary: pageRank maxdifference)
  case 0
  then show ?case by (simp add: converge.simps)
next
  case (Suc k)
  from Suc.prems(3) have "continues (passes iter corpus links_to damping 0 (pageRank, maxdifference))"
    by blast
  then have go: "1 / 10000 < maxdifference" by (simp add: continues_def)
  from Suc.prems(1) obtain pageRank' maxdifference'
    where p: "one_pass iter corpus links_to damping pageRank = Inr (pageRank', maxdifference')"
    by (auto split: sum.splits)
  have step: "passes iter corpus links_to damping (Suc j) (pageRank, maxdifference) =
      passes iter corpus links_to damping j (pageRank', maxdifference')" for j
    by (simp add: p)
  have "\<forall>j<k. continues (passes iter corpus links_to damping j (pageRank', maxdifference'))"
    using Suc.prems(3) step by (metis Suc_less_eq)
  moreover have "passes iter corpus links_to damping k (pageRank', maxdifference') = Inr (ranks, m)"
    using Suc.prems(1) step by simp
  ultimately have "converge iter corpus links_to damping pageRank' maxdifference' = Some (Inr ranks)"
    using Suc.IH Suc.prems(2) by blast
  then show ?case using go p by (subst converge.simps) simp
qed

lemma converge_Some_stops:
  "converge iter corpus links_to damping pageRank maxdifference = Some y \<Longrightarrow>
     \<not> (\<forall>k. continues (passes iter corpus links_to damping k (pageRank, maxdifference)))"
proof (rule converge.raw_induct
    [where P = "\<lambda>iter corpus links_to damping pageRank maxdifference y.
       \<not> (\<forall>k. continues (passes iter corpus links_to damping k (pageRank, maxdifference)))"])
  fix conv :: "('a list \<Rightarrow> 'a list) \<Rightarrow> 'a corpus \<Rightarrow> ('a \<times> 'a list) list \<Rightarrow> real \<Rightarrow> 'a ranks \<Rightarrow> real \<Rightarrow>
      (error + 'a ranks) option"
    and iter :: "'a list \<Rightarrow> 'a list" and corpus :: "'a corpus"
    and links_to :: "('a \<times> 'a list) list" and damping :: real and pageRank :: "'a ranks"
    and maxdifference :: real and y :: "error + 'a ranks"
  assume IH: "\<And>iter corpus links_to damping pageRank maxdifference y.
      conv iter corpus links_to damping pageRank maxdifference = Some y \<Longrightarrow>
      \<not> (\<forall>k. continues (passes iter corpus links_to damping k (pageRank, maxdifference)))"
    and eq: "(if 1 / 10000 < maxdifference
      then case one_pass iter corpus links_to damping pageRank of
           Inl e \<Rightarrow> Some (Inl e)
           | Inr (pageRank', maxdifference') \<Rightarrow> conv iter corpus links_to damping pageRank' maxdifference'
      else Some (Inr pageRank)) = Some y"
  show "\<not> (\<forall>k. continues (passes iter corpus links_to damping k (pageRank, maxdifference)))"
  proof
    assume all: "\<forall>k. continues (passes iter corpus links_to damping k (pageRank, maxdifference))"
    from all have "continues (passes iter corpus links_to damping 0 (pageRank, maxdifference))"
      by blast
    then have go: "1 / 10000 < maxdifference" by (simp add: continues_def)
    from all have "continues (passes iter corpus links_to damping (Suc 0) (pageRank, maxdifference))"
      by blast
    then obtain pageRank' maxdifference'
      where p: "one_pass iter corpus links_to damping pageRank = Inr (pageRank', maxdifference')"
      by (auto simp: continues_def split: sum.splits)
    from eq go p have "conv iter corpus links_to damping pageRank' maxdifference' = Some y"
      by simp
    then have "\<not> (\<forall>k. continues (passes iter corpus links_to damping k (pageRank', maxdifference')))"
      by (rule IH)
    moreover have "continues (passes iter corpus links_to damping k (pageRank', maxdifference'))" for k
      using all [rule_format, of "Suc k"] p by simp
    ultimately show False by blast
  qed
qed

lemma converge_diverges:
  "\<forall>k. continues (passes iter corpus links_to damping k (pageRank, maxdifference)) \<Longrightarrow>
     converge iter corpus links_to damping pageRank maxdifference = None"
  using converge_Some_stops [of iter corpus links_to damping pageRank maxdifference]
  by (cases "converge iter corpus links_to damping pageRank maxdifference") auto

lemma iterate_pagerank_converge:
  "prepare iter corpus = (corpus', pageRank, links_to, fresh) \<Longrightarrow>
     snd (iterate_pagerank iter corpus damping) = converge iter corpus' links_to damping pageRank 1"
  by (simp add: iterate_pagerank_def)

lemma after_passes_passes:
  "prepare iter corpus = (corpus', pageRank, links_to, fresh) \<Longrightarrow>
     after_passes iter corpus damping k = passes iter corpus' links_to damping k (pageRank, 1)"
  by (simp add: after_passes_def)

lemma four_page_prepare:
  "prepare id [(''A'', [''C'']), (''B'', [''A'']), (''C'', [''B'']), (''D'', [''A''])] =
     ([(''A'', [''C'']), (''B'', [''A'']), (''C'', [''B'']), (''D'', [''A''])],
      [(''A'', 1 / 4), (''B'', 1 / 4), (''C'', 1 / 4), (''D'', 1 / 4)],
      [(''A'', [''B'', ''D'']), (''B'', [''C'']), (''C'', [''A'']), (''D'', [])], 0)"
  by (simp add: prepare_def rewrite_sinks_def set_add_def)

lemma four_page_passes:
  "one_pass id [(''A'', [''C'']), (''B'', [''A'']), (''C'', [''B'']), (''D'', [''A''])]
     [(''A'', [''B'', ''D'']), (''B'', [''C'']), (''C'', [''A'']), (''D'', [])] 1
     [(''A'', 1 / 4), (''B'', 1 / 4), (''C'', 1 / 4), (''D'', 1 / 4)] =
   Inr ([(''A'', 1 / 2), (''B'', 1 / 4), (''C'', 1 / 2), (''D'', 0)], 1 / 4)"
  "one_pass id [(''A'', [''C'']), (''B'', [''A'']), (''C'', [''B'']), (''D'', [''A''])]
     [(''A'', [''B'', ''D'']), (''B'', [''C'']), (''C'', [''A'']), (''D'', [])] 1
     [(''A'', 1 / 2), (''B'', 1 / 4), (''C'', 1 / 2), (''D'', 0)] =
   Inr ([(''A'', 1 / 4), (''B'', 1 / 2), (''C'', 1 / 4), (''D'', 0)], 1 / 4)"
  "one_pass id [(''A'', [''C'']), (''B'', [''A'']), (''C'', [''B'']), (''D'', [''A''])]
     [(''A'', [''B'', ''D'']), (''B'', [''C'']), (''C'', [''A'']), (''D'', [])] 1
     [(''A'', 1 / 4), (''B'', 1 / 2), (''C'', 1 / 4), (''D'', 0)] =
   Inr ([(''A'', 1 / 2), (''B'', 1 / 4), (''C'', 1 / 2), (''D'', 0)], 1 / 4)"
  by (simp_all add: one_pass_def)

lemma four_page_oscillates:
  "continues (passes id [(''A'', [''C'']), (''B'', [''A'']), (''C'', [''B'']), (''D'', [''A''])]
     [(''A'', [''B'', ''D'']), (''B'', [''C'']), (''C'', [''A'']), (''D'', [])] 1 k
     ([(''A'', 1 / 2), (''B'', 1 / 4), (''C'', 1 / 2), (''D'', 0)], 1 / 4)) \<and>
   continues (passes id [(''A'', [''C'']), (''B'', [''A'']), (''C'', [''B'']), (''D'', [''A''])]
     [(''A'', [''B'', ''D'']), (''B'', [''C'']), (''C'', [''A'']), (''D'', [])] 1 k
     ([(''A'', 1 / 4), (''B'', 1 / 2), (''C'', 1 / 4), (''D'', 0)], 1 / 4))"
proof (induction k)
  case 0
  show ?case by (simp add: continues_def)
next
  case (Suc k)
  then show ?case by (simp only: passes.simps four_page_passes sum.case)
qed

lemma four_page_never_stops:
  "continues (after_passes id [(''A'', [''C'']), (''B'', [''A'']), (''C'', [''B'']), (''D'', [''A''])] 1 k)"
proof (cases k)
  case 0
  then show ?thesis
    by (simp add: after_passes_passes [OF four_page_prepare] continues_def)
next
  case (Suc j)
  then show ?thesis
    using four_page_oscillates [of j]
    by (simp only: after_passes_passes [OF four_page_prepare] passes.simps four_page_passes sum.case)
qed

text \<open>
  C4 as stated fails: the loop has no cap. On the graph \<open>{A: {C}, B: {A}, C: {B}, D: {A}}\<close>
  with damping 1 the ranks alternate between \<open>(1/2, 1/4, 1/2, 0)\<close> and
  \<open>(1/4, 1/2, 1/4, 0)\<close>, every pass changes a rank by \<open>1 / 4\<close>, and the call never
  returns and never reports anything.
\<close>

theorem unbounded_loop_counterexample:
  "snd (iterate_pagerank id [(''A'', [''C'']), (''B'', [''A'']), (''C'', [''B'']), (''D'', [''A''])] 1) = None"
proof -
  have "\<forall>k. continues (passes id [(''A'', [''C'']), (''B'', [''A'']), (''C'', [''B'']), (''D'', [''A''])]
      [(''A'', [''B'', ''D'']), (''B'', [''C'']), (''C'', [''A'']), (''D'', [])] 1 k
      ([(''A'', 1 / 4), (''B'', 1 / 4), (''C'', 1 / 4), (''D'', 1 / 4)], 1))"
    using four_page_never_stops unfolding after_passes_passes [OF four_page_prepare] by blast
  then have "converge id [(''A'', [''C'']), (''B'', [''A'']), (''C'', [''B'']), (''D'', [''A''])]
      [(''A'', [''B'', ''D'']), (''B'', [''C'']), (''C'', [''A'']), (''D'', [])] 1
      [(''A'', 1 / 4), (''B'', 1 / 4), (''C'', 1 / 4), (''D'', 1 / 4)] 1 = None"
    by (rule converge_diverges)
  then show ?thesis
    unfolding iterate_pagerank_converge [OF four_page_prepare] .
qed

text \<open>
  C4, amended. The loop of \<open>iterate_pagerank\<close> has no iteration cap and reports no
  non-convergence: it goes on as long as the last pass changed some rank by more than
  0.0001. When every pass does, the call never returns; when the pass number \<open>k\<close> is the
  first that does not, the call returns the ranks of that pass, whatever \<open>k\<close> is.
\<close>

theorem loop_has_no_cap:
  "((\<forall>k. continues (after_passes iter corpus damping k)) \<longrightarrow>
      snd (iterate_pagerank iter corpus damping) = None) \<and>
   ((\<forall>j<k. continues (after_passes iter corpus damping j)) \<and>
    after_passes iter corpus damping k = Inr (ranks, m) \<and> m \<le> 1 / 10000 \<longrightarrow>
      snd (iterate_pagerank iter corpus damping) = Some (Inr ranks))"
proof -
  obtain corpus' pageRank links_to fresh
    where p: "prepare iter corpus = (corpus', pageRank, links_to, fresh)"
    by (cases "prepare iter corpus") auto
  note a = after_passes_passes [OF p] and i = iterate_pagerank_converge [OF p]
  show ?thesis
    unfolding a i using converge_diverges converge_returns by blast
qed

theorem loop_has_no_cap_witness:
  "(\<forall>k. continues (after_passes id
      [(''A'', [''C'']), (''B'', [''A'']), (''C'', [''B'']), (''D'', [''A''])] 1 k)) \<and>
   snd (iterate_pagerank id
      [(''A'', [''C'']), (''B'', [''A'']), (''C'', [''B'']), (''D'', [''A''])] 1) = None \<and>
   continues (after_passes id [(''A'', [''B'']), (''B'', [''A''])] (17 / 20) 0) \<and>
   after_passes id [(''A'', [''B'']), (''B'', [''A''])] (17 / 20) 1 =
     Inr ([(''A'', 1 / 2), (''B'', 1 / 2)], 0) \<and>
   snd (iterate_pagerank id [(''A'', [''B'']), (''B'', [''A''])] (17 / 20)) =
     Some (Inr [(''A'', 1 / 2), (''B'', 1 / 2)])"
proof -
  let ?g = "[(''A'', [''C'']), (''B'', [''A'']), (''C'', [''B'']), (''D'', [''A''])]"
  let ?h = "[(''A'', [''B'']), (''B'', [''A''])]"
  have n: "\<forall>k. continues (after_passes id ?g 1 k)"
    using four_page_never_stops by blast
  have p: "prepare id ?h = (?h, [(''A'', 1 / 2), (''B'', 1 / 2)], [(''A'', [''B'']), (''B'', [''A''])], 0)"
    by (simp add: prepare_def rewrite_sinks_def set_add_def)
  have z: "continues (after_passes id ?h (17 / 20) 0)"
    by (simp add: after_passes_def p continues_def)
  then have b: "\<forall>j<1. continues (after_passes id ?h (17 / 20) j)" by simp
  have o: "after_passes id ?h (17 / 20) 1 = Inr ([(''A'', 1 / 2), (''B'', 1 / 2)], 0)"
    by (simp add: after_passes_def p one_pass_def)
  have s: "(0::real) \<le> 1 / 10000" by simp
  from loop_has_no_cap [of id ?g 1] n
  have "snd (iterate_pagerank id ?g 1) = None" by blast
  moreover from loop_has_no_cap [of id ?h "17 / 20" 1 "[(''A'', 1 / 2), (''B'', 1 / 2)]" 0] b o s
  have "snd (iterate_pagerank id ?h (17 / 20)) = Some (Inr [(''A'', 1 / 2), (''B'', 1 / 2)])"
    by blast
  ultimately show ?thesis using n z o by (intro conjI)
qed

section \<open>The solver raises no error\<close>











section \<open>Errors of the estimators\<close>







end
